theory Spec2Isabelle
  imports Main
begin

section \<open>The Mancala board engine of \<^verbatim>\<open>Mancala.py\<close>\<close>

text \<open>
  The board is a Python list of integers; positions 0-5 are Player 1's pits, 6 is
  Player 1's store, 7-12 are Player 2's pits and 13 is Player 2's store. Python's
  integers are unbounded, so counts, pit numbers and the player argument are \<open>int\<close>.
  The functions mutate the list and return it; the model returns the new list.
  An exception is a value \<open>Inl e\<close>; a loop that does not finish is \<open>None\<close>.
\<close>

subsection \<open>Python list access\<close>

datatype error = IndexError

text \<open>Sequencing of statements that may raise: the first exception ends the run.\<close>

definition bind_err :: "error + 'a \<Rightarrow> ('a \<Rightarrow> error + 'b) \<Rightarrow> error + 'b" where
  "bind_err m f = (case m of Inl e \<Rightarrow> Inl e | Inr x \<Rightarrow> f x)"

text \<open>
  The position that a subscript \<^verbatim>\<open>i\<close> denotes in a list of \<open>len\<close> elements:
  \<^verbatim>\<open>-len .. -1\<close> count from the end, \<^verbatim>\<open>0 .. len-1\<close> from the front, and every
  other subscript raises \<^verbatim>\<open>IndexError\<close>.
\<close>

definition subscript :: "nat \<Rightarrow> int \<Rightarrow> error + nat" where
  "subscript len i =
     (if - int len \<le> i \<and> i < 0 then Inr (nat (i + int len))
      else if 0 \<le> i \<and> i < int len then Inr (nat i)
      else Inl IndexError)"

text \<open>Reading \<^verbatim>\<open>xs[i]\<close> and the assignment \<^verbatim>\<open>xs[i] = v\<close>.\<close>

definition getitem :: "int list \<Rightarrow> int \<Rightarrow> error + int" where
  "getitem xs i = bind_err (subscript (length xs) i) (\<lambda>k. Inr (xs ! k))"

definition setitem :: "int list \<Rightarrow> int \<Rightarrow> int \<Rightarrow> error + int list" where
  "setitem xs i v = bind_err (subscript (length xs) i) (\<lambda>k. Inr (xs[k := v]))"

subsection \<open>The operations\<close>

text \<open>\<^verbatim>\<open>init_board\<close> (lines 21-28): \<^verbatim>\<open>[4] * 14\<close>, then both stores set to 0.\<close>

definition init_board :: "int list" where
  "init_board = (replicate 14 4)[6 := 0, 13 := 0]"

text \<open>\<^verbatim>\<open>is_game_over\<close> (lines 48-52); the slices \<^verbatim>\<open>board[0:6]\<close> and
  \<^verbatim>\<open>board[7:13]\<close> never raise.\<close>

definition is_game_over :: "int list \<Rightarrow> bool" where
  "is_game_over board =
     (sum_list (take 6 board) = 0 \<or> sum_list (take 6 (drop 7 board)) = 0)"

text \<open>
  The validation of \<^verbatim>\<open>make_move\<close> (lines 63-68): the result is whether the move is
  rejected. Python's \<^verbatim>\<open>or\<close> is short-circuit, so \<^verbatim>\<open>board[pit]\<close> is read only
  when the pit is in the player's range. Every player value other than 1 takes the
  \<^verbatim>\<open>else\<close> branch.
\<close>

definition rejected :: "int list \<Rightarrow> int \<Rightarrow> int \<Rightarrow> error + bool" where
  "rejected board pit player =
     (if player = 1 then
        (if pit < 0 \<or> pit > 5 then Inr True
         else bind_err (getitem board pit) (\<lambda>v. Inr (v = 0)))
      else
        (if pit < 7 \<or> pit > 12 then Inr True
         else bind_err (getitem board pit) (\<lambda>v. Inr (v = 0))))"

text \<open>
  The distribution loop (lines 74-82). \<^verbatim>\<open>continue\<close> goes back to the loop test with
  the index advanced and the stone count unchanged. The result is the board and the
  final value of \<^verbatim>\<open>index\<close>.
\<close>

partial_function (option) sow ::
  "int \<Rightarrow> int list \<Rightarrow> int \<Rightarrow> int \<Rightarrow> (error + int list \<times> int) option" where
  "sow player board index stones =
     (if stones > 0 then
        (let index' = (index + 1) mod 14 in
         if player = 1 \<and> index' = 13 then sow player board index' stones
         else if player = 2 \<and> index' = 6 then sow player board index' stones
         else
           (case bind_err (getitem board index') (\<lambda>v. setitem board index' (v + 1)) of
              Inl e \<Rightarrow> Some (Inl e)
            | Inr board' \<Rightarrow> sow player board' index' (stones - 1)))
      else Some (Inr (board, index)))"

declare sow.simps [code]

text \<open>
  The body of a capture (lines 91-95 and 97-101), for the store given:
  \<^verbatim>\<open>board[store] += board[opposite] + 1\<close>, then the two pits are emptied.
\<close>

definition capture_into :: "int \<Rightarrow> int list \<Rightarrow> int \<Rightarrow> error + int list" where
  "capture_into store board index =
     (let opposite = 12 - index in
      bind_err (getitem board opposite) (\<lambda>opp.
        if opp > 0 then
          bind_err (getitem board store) (\<lambda>s.
          bind_err (getitem board opposite) (\<lambda>opp'.
          bind_err (setitem board store (s + (opp' + 1))) (\<lambda>b1.
          bind_err (setitem b1 index 0) (\<lambda>b2.
          setitem b2 opposite 0))))
        else Inr board))"

text \<open>
  The tests of the capture rule (lines 90 and 96); \<^verbatim>\<open>and\<close> is short-circuit, so
  \<^verbatim>\<open>board[index]\<close> is read only for the player's own pits.
\<close>

definition lands_alone :: "int \<Rightarrow> int \<Rightarrow> int \<Rightarrow> int list \<Rightarrow> int \<Rightarrow> int \<Rightarrow> error + bool" where
  "lands_alone who lo hi board index player =
     (if player = who \<and> lo \<le> index \<and> index < hi
      then bind_err (getitem board index) (\<lambda>v. Inr (v = 1))
      else Inr False)"

definition capture :: "int \<Rightarrow> int list \<Rightarrow> int \<Rightarrow> error + int list" where
  "capture player board index =
     bind_err (lands_alone 1 0 6 board index player) (\<lambda>c1.
       if c1 then capture_into 6 board index
       else bind_err (lands_alone 2 7 13 board index player) (\<lambda>c2.
         if c2 then capture_into 13 board index else Inr board))"

text \<open>\<^verbatim>\<open>make_move\<close> (lines 54-103): the result is (valid_move, board, extra_turn).\<close>

definition make_move ::
  "int list \<Rightarrow> int \<Rightarrow> int \<Rightarrow> (error + bool \<times> int list \<times> bool) option" where
  "make_move board pit player =
     (case rejected board pit player of
        Inl e \<Rightarrow> Some (Inl e)
      | Inr True \<Rightarrow> Some (Inr (False, board, False))
      | Inr False \<Rightarrow>
          (case bind_err (getitem board pit) (\<lambda>stones.
                  bind_err (setitem board pit 0) (\<lambda>b. Inr (stones, b))) of
             Inl e \<Rightarrow> Some (Inl e)
           | Inr (stones, board1) \<Rightarrow>
               (case sow player board1 pit stones of
                  None \<Rightarrow> None
                | Some (Inl e) \<Rightarrow> Some (Inl e)
                | Some (Inr (board2, index)) \<Rightarrow>
                    (let extra_turn = ((player = 1 \<and> index = 6) \<or> (player = 2 \<and> index = 13))
                     in case capture player board2 index of
                          Inl e \<Rightarrow> Some (Inl e)
                        | Inr board3 \<Rightarrow> Some (Inr (True, board3, extra_turn))))))"

text \<open>
  \<^verbatim>\<open>collect_remaining_stones\<close> (lines 105-113). The two \<^verbatim>\<open>for\<close> loops run over
  fixed ranges.
\<close>

definition zero_range :: "nat list \<Rightarrow> int list \<Rightarrow> error + int list" where
  "zero_range is board =
     fold (\<lambda>i acc. bind_err acc (\<lambda>b. setitem b (int i) 0)) is (Inr board)"

definition collect_remaining_stones :: "int list \<Rightarrow> error + int list" where
  "collect_remaining_stones board =
     bind_err (getitem board 6) (\<lambda>s6.
     bind_err (setitem board 6 (s6 + sum_list (take 6 board))) (\<lambda>b1.
     bind_err (getitem b1 13) (\<lambda>s13.
     bind_err (setitem b1 13 (s13 + sum_list (take 6 (drop 7 b1)))) (\<lambda>b2.
     bind_err (zero_range [0..<6] b2) (\<lambda>b3.
     zero_range [7..<13] b3)))))"

text \<open>\<^verbatim>\<open>get_winner\<close> (lines 115-121): 0 is a tie.\<close>

definition get_winner :: "int list \<Rightarrow> error + int" where
  "get_winner board =
     bind_err (getitem board 6) (\<lambda>s6.
     bind_err (getitem board 13) (\<lambda>s13.
       Inr (if s6 > s13 then 1 else if s13 > s6 then 2 else 0)))"

subsection \<open>Notions used in the statements\<close>

text \<open>A position the loop passes over without a deposit (lines 77-80).\<close>

definition skipped :: "int \<Rightarrow> int \<Rightarrow> bool" where
  "skipped player index = (player = 1 \<and> index = 13 \<or> player = 2 \<and> index = 6)"

text \<open>The quantity that decreases on every pass through the loop body.\<close>

definition sow_rank :: "int \<Rightarrow> int \<Rightarrow> int \<Rightarrow> nat" where
  "sow_rank player index stones =
     2 * nat stones + (if skipped player ((index + 1) mod 14) then 1 else 0)"

text \<open>What the validation rejects, on a board where the pit can be read.\<close>

definition illegal :: "int list \<Rightarrow> int \<Rightarrow> int \<Rightarrow> bool" where
  "illegal board pit player =
     (if player = 1 then pit < 0 \<or> pit > 5 \<or> board ! nat pit = 0
      else pit < 7 \<or> pit > 12 \<or> board ! nat pit = 0)"

section \<open>Facts about list access\<close>

lemma bind_err_Inr [simp]: "bind_err (Inr x) f = f x"
  by (simp add: bind_err_def)

lemma bind_err_Inl [simp]: "bind_err (Inl e) f = Inl e"
  by (simp add: bind_err_def)

lemma getitem_nth: "0 \<le> i \<Longrightarrow> i < int (length xs) \<Longrightarrow> getitem xs i = Inr (xs ! nat i)"
  by (simp add: getitem_def subscript_def)

lemma setitem_upd: "0 \<le> i \<Longrightarrow> i < int (length xs) \<Longrightarrow> setitem xs i v = Inr (xs[nat i := v])"
  by (simp add: setitem_def subscript_def)

lemma sum_list_upd: "k < length xs \<Longrightarrow> sum_list (xs[k := v]) = sum_list xs - xs ! k + (v::int)"
proof (induction xs arbitrary: k)
  case Nil
  then show ?case by simp
next
  case (Cons x xs)
  then show ?case by (cases k) simp_all
qed

lemma sow_rank_skip:
  "0 < stones \<Longrightarrow> skipped player ((index + 1) mod 14) \<Longrightarrow>
   sow_rank player ((index + 1) mod 14) stones < sow_rank player index stones"
  by (auto simp: sow_rank_def skipped_def)

lemma sow_rank_deposit:
  "0 < stones \<Longrightarrow> sow_rank player j (stones - 1) < sow_rank player index stones"
  by (auto simp: sow_rank_def)

lemma sow_step14:
  assumes "length board = 14"
  shows "sow player board index stones =
     (if 0 < stones then
        if skipped player ((index + 1) mod 14) then sow player board ((index + 1) mod 14) stones
        else sow player (board[nat ((index + 1) mod 14) := board ! nat ((index + 1) mod 14) + 1])
               ((index + 1) mod 14) (stones - 1)
      else Some (Inr (board, index)))"
proof -
  have r: "0 \<le> (index + 1) mod 14" "(index + 1) mod 14 < int (length board)"
    using assms by simp_all
  show ?thesis
    by (subst sow.simps) (simp add: Let_def skipped_def getitem_nth [OF r] setitem_upd [OF r])
qed

lemma sow_rule:
  assumes len: "length board = 14" and init: "I board index stones"
    and skip: "\<And>b i s. length b = 14 \<Longrightarrow> I b i s \<Longrightarrow> 0 < s \<Longrightarrow>
                 skipped player ((i + 1) mod 14) \<Longrightarrow> I b ((i + 1) mod 14) s"
    and dep: "\<And>b i s. length b = 14 \<Longrightarrow> I b i s \<Longrightarrow> 0 < s \<Longrightarrow>
                 \<not> skipped player ((i + 1) mod 14) \<Longrightarrow>
                 I (b[nat ((i + 1) mod 14) := b ! nat ((i + 1) mod 14) + 1]) ((i + 1) mod 14) (s - 1)"
  shows "\<exists>b' i' s'. sow player board index stones = Some (Inr (b', i')) \<and>
           length b' = 14 \<and> I b' i' s' \<and> s' \<le> 0"
  using len init
proof (induction "sow_rank player index stones" arbitrary: board index stones rule: less_induct)
  case less
  show ?case
  proof (cases "0 < stones")
    case False
    then have "sow player board index stones = Some (Inr (board, index))"
      by (simp add: sow_step14 [OF less.prems(1)])
    with less.prems False show ?thesis by auto
  next
    case pos: True
    show ?thesis
    proof (cases "skipped player ((index + 1) mod 14)")
      case True
      have "\<exists>b' i' s'. sow player board ((index + 1) mod 14) stones = Some (Inr (b', i')) \<and>
              length b' = 14 \<and> I b' i' s' \<and> s' \<le> 0"
        by (rule less.hyps [OF sow_rank_skip [OF pos True] less.prems(1)
              skip [OF less.prems pos True]])
      then show ?thesis
        using pos True by (simp add: sow_step14 [OF less.prems(1)])
    next
      case False
      let ?j = "(index + 1) mod 14"
      let ?b = "board[nat ?j := board ! nat ?j + 1]"
      have l: "length ?b = 14" using less.prems(1) by simp
      have "\<exists>b' i' s'. sow player ?b ?j (stones - 1) = Some (Inr (b', i')) \<and>
              length b' = 14 \<and> I b' i' s' \<and> s' \<le> 0"
        by (rule less.hyps [OF sow_rank_deposit [OF pos] l dep [OF less.prems pos False]])
      then show ?thesis
        using pos False by (simp add: sow_step14 [OF less.prems(1)])
    qed
  qed
qed


lemma sow_facts:
  assumes len: "length board = 14"
  shows "\<exists>b' i'. sow player board index stones = Some (Inr (b', i')) \<and> length b' = 14 \<and>
           (0 < stones \<longrightarrow> 0 \<le> i' \<and> i' < 14 \<and> \<not> skipped player i') \<and>
           (stones \<le> 0 \<longrightarrow> i' = index \<and> b' = board) \<and>
           sum_list b' = sum_list board + max 0 stones \<and>
           (\<forall>k<14. board ! k \<le> b' ! k) \<and>
           (player = 1 \<longrightarrow> b' ! 13 = board ! 13) \<and>
           (player = 2 \<longrightarrow> b' ! 6 = board ! 6)"
proof (cases "0 < stones")
  case False
  then show ?thesis by (simp add: sow_step14 [OF len] len)
next
  case pos: True
  define I where "I = (\<lambda>b i s. 0 \<le> s \<and> (s = 0 \<longrightarrow> 0 \<le> i \<and> i < 14 \<and> \<not> skipped player i) \<and>
      sum_list b + s = sum_list board + stones \<and> (\<forall>k<14. board ! k \<le> b ! k) \<and>
      (player = 1 \<longrightarrow> b ! 13 = board ! 13) \<and> (player = 2 \<longrightarrow> b ! 6 = board ! 6))"
  have init: "I board index stones"
    using pos by (simp add: I_def)
  have skip: "I b ((i + 1) mod 14) s"
    if "length b = 14" "I b i s" "0 < s" "skipped player ((i + 1) mod 14)" for b i s
    using that by (simp add: I_def)
  have dep: "I (b[nat ((i + 1) mod 14) := b ! nat ((i + 1) mod 14) + 1]) ((i + 1) mod 14) (s - 1)"
    if b: "length b = 14" and inv: "I b i s" and s: "0 < s"
      and ns: "\<not> skipped player ((i + 1) mod 14)" for b i s
  proof -
    let ?j = "(i + 1) mod 14"
    have j: "0 \<le> ?j" "?j < 14" by simp_all
    then have nj: "nat ?j < length b" using b by simp
    have sum: "sum_list (b[nat ?j := b ! nat ?j + 1]) = sum_list b + 1"
      by (simp add: sum_list_upd [OF nj])
    have mono: "\<forall>k<14. board ! k \<le> b[nat ?j := b ! nat ?j + 1] ! k"
    proof (intro allI impI)
      fix k :: nat assume k: "k < 14"
      with inv have "board ! k \<le> b ! k" by (simp add: I_def)
      then show "board ! k \<le> b[nat ?j := b ! nat ?j + 1] ! k"
        using b k by (cases "k = nat ?j") simp_all
    qed
    have s13: "player = 1 \<longrightarrow> b[nat ?j := b ! nat ?j + 1] ! 13 = board ! 13"
    proof
      assume p: "player = 1"
      with ns have "?j \<noteq> 13" by (simp add: skipped_def)
      then have "nat ?j \<noteq> 13" using j by linarith
      with inv p show "b[nat ?j := b ! nat ?j + 1] ! 13 = board ! 13" by (simp add: I_def)
    qed
    have s6: "player = 2 \<longrightarrow> b[nat ?j := b ! nat ?j + 1] ! 6 = board ! 6"
    proof
      assume p: "player = 2"
      with ns have "?j \<noteq> 6" by (simp add: skipped_def)
      then have "nat ?j \<noteq> 6" using j by linarith
      with inv p show "b[nat ?j := b ! nat ?j + 1] ! 6 = board ! 6" by (simp add: I_def)
    qed
    from inv s have "0 \<le> s - 1" "sum_list b + s = sum_list board + stones"
      by (simp_all add: I_def)
    with sum mono s13 s6 ns j show ?thesis
      unfolding I_def by simp
  qed
  from sow_rule [of board I index stones player, OF len init skip dep]
  obtain b' i' s' where r: "sow player board index stones = Some (Inr (b', i'))"
    "length b' = 14" "I b' i' s'" "s' \<le> 0"
    by blast
  from r(3,4) have "s' = 0" by (simp add: I_def)
  with r(3) pos have "0 \<le> i' \<and> i' < 14 \<and> \<not> skipped player i'"
    "sum_list b' = sum_list board + max 0 stones" "\<forall>k<14. board ! k \<le> b' ! k"
    "player = 1 \<longrightarrow> b' ! 13 = board ! 13" "player = 2 \<longrightarrow> b' ! 6 = board ! 6"
    by (simp_all add: I_def)
  with r(1,2) pos show ?thesis by simp
qed


lemma capture_player1:
  assumes "length b = 14"
  shows "capture 1 b i =
     Inr (if 0 \<le> i \<and> i < 6 \<and> b ! nat i = 1 \<and> 0 < b ! nat (12 - i)
          then b[6 := b ! 6 + (b ! nat (12 - i) + 1), nat i := 0, nat (12 - i) := 0]
          else b)"
  using assms
  by (simp add: capture_def lands_alone_def capture_into_def getitem_def setitem_def subscript_def Let_def)

lemma capture_player2:
  assumes "length b = 14"
  shows "capture 2 b i =
     Inr (if 7 \<le> i \<and> i < 13 \<and> b ! nat i = 1 \<and> 0 < b ! nat (12 - i)
          then b[13 := b ! 13 + (b ! nat (12 - i) + 1), nat i := 0, nat (12 - i) := 0]
          else b)"
  using assms
  by (simp add: capture_def lands_alone_def capture_into_def getitem_def setitem_def subscript_def Let_def)

lemma capture_other: "player \<noteq> 1 \<Longrightarrow> player \<noteq> 2 \<Longrightarrow> capture player b i = Inr b"
  by (simp add: capture_def lands_alone_def)

lemma rejected14: "length board = 14 \<Longrightarrow> rejected board pit player = Inr (illegal board pit player)"
  by (simp add: rejected_def illegal_def getitem_def subscript_def)

lemma make_move_illegal:
  "length board = 14 \<Longrightarrow> illegal board pit player \<Longrightarrow>
   make_move board pit player = Some (Inr (False, board, False))"
  by (simp add: make_move_def rejected14)

lemma legal_range: "\<not> illegal board pit player \<Longrightarrow> 0 \<le> pit \<and> pit < 13"
  by (simp add: illegal_def split: if_splits)

lemma make_move_legal:
  assumes len: "length board = 14" and ok: "\<not> illegal board pit player"
    and sow: "sow player (board[nat pit := 0]) pit (board ! nat pit) = Some (Inr (b2, i))"
    and cap: "capture player b2 i = Inr b3"
  shows "make_move board pit player =
           Some (Inr (True, b3, player = 1 \<and> i = 6 \<or> player = 2 \<and> i = 13))"
proof -
  from legal_range [OF ok] len have r: "0 \<le> pit" "pit < int (length board)" by simp_all
  show ?thesis
    using ok sow cap
    by (simp add: make_move_def rejected14 [OF len] getitem_nth [OF r] setitem_upd [OF r])
qed

lemma capture_shape:
  assumes len: "length b = 14"
  shows "capture player b i = Inr b \<or>
     (\<exists>s n. (player = 1 \<and> s = 6 \<and> n < 6 \<or> player = 2 \<and> s = 13 \<and> 7 \<le> n \<and> n < 13) \<and>
        i = int n \<and> b ! n = 1 \<and> 0 < b ! (12 - n) \<and>
        capture player b i = Inr (b[s := b ! s + (b ! (12 - n) + 1), n := 0, 12 - n := 0]))"
proof -
  consider "player = 1" | "player = 2" | "player \<noteq> 1" "player \<noteq> 2" by blast
  then show ?thesis
  proof cases
    case 1
    show ?thesis
    proof (cases "0 \<le> i \<and> i < 6 \<and> b ! nat i = 1 \<and> 0 < b ! nat (12 - i)")
      case True
      then have n: "nat (12 - i) = 12 - nat i" "i = int (nat i)" "nat i < 6" by linarith+
      have c: "capture 1 b i = Inr (b[6 := b ! 6 + (b ! nat (12 - i) + 1), nat i := 0, nat (12 - i) := 0])"
        by (subst capture_player1 [OF len], subst if_P [OF True], rule refl)
      have "(player = 1 \<and> (6::nat) = 6 \<and> nat i < 6 \<or> player = 2 \<and> (6::nat) = 13 \<and> 7 \<le> nat i \<and> nat i < 13) \<and>
        i = int (nat i) \<and> b ! nat i = 1 \<and> 0 < b ! (12 - nat i) \<and>
        capture player b i = Inr (b[6 := b ! 6 + (b ! (12 - nat i) + 1), nat i := 0, 12 - nat i := 0])"
        using True 1 c n by simp
      then show ?thesis by blast
    next
      case False
      have "capture 1 b i = Inr b"
        by (subst capture_player1 [OF len], subst if_not_P [OF False], rule refl)
      with 1 show ?thesis by simp
    qed
  next
    case 2
    show ?thesis
    proof (cases "7 \<le> i \<and> i < 13 \<and> b ! nat i = 1 \<and> 0 < b ! nat (12 - i)")
      case True
      then have n: "nat (12 - i) = 12 - nat i" "i = int (nat i)" "7 \<le> nat i" "nat i < 13" by linarith+
      have c: "capture 2 b i = Inr (b[13 := b ! 13 + (b ! nat (12 - i) + 1), nat i := 0, nat (12 - i) := 0])"
        by (subst capture_player2 [OF len], subst if_P [OF True], rule refl)
      have "(player = 1 \<and> (13::nat) = 6 \<and> nat i < 6 \<or> player = 2 \<and> (13::nat) = 13 \<and> 7 \<le> nat i \<and> nat i < 13) \<and>
        i = int (nat i) \<and> b ! nat i = 1 \<and> 0 < b ! (12 - nat i) \<and>
        capture player b i = Inr (b[13 := b ! 13 + (b ! (12 - nat i) + 1), nat i := 0, 12 - nat i := 0])"
        using True 2 c n by simp
      then show ?thesis by blast
    next
      case False
      have "capture 2 b i = Inr b"
        by (subst capture_player2 [OF len], subst if_not_P [OF False], rule refl)
      with 2 show ?thesis by simp
    qed
  next
    case 3
    then show ?thesis by (simp add: capture_other)
  qed
qed


lemma capture_keeps:
  assumes len: "length b = 14"
  shows "\<exists>b3. capture player b i = Inr b3 \<and> length b3 = 14 \<and> sum_list b3 = sum_list b \<and>
           ((\<forall>x\<in>set b. 0 \<le> x) \<longrightarrow> (\<forall>x\<in>set b3. 0 \<le> x)) \<and>
           (player = 1 \<longrightarrow> b3 ! 13 = b ! 13) \<and> (player = 2 \<longrightarrow> b3 ! 6 = b ! 6)"
proof -
  consider (same) "capture player b i = Inr b"
    | (took) s n where
        "player = 1 \<and> s = 6 \<and> n < 6 \<or> player = 2 \<and> s = 13 \<and> 7 \<le> n \<and> n < 13"
        "b ! n = 1" "0 < b ! (12 - n)"
        "capture player b i = Inr (b[s := b ! s + (b ! (12 - n) + 1), n := 0, 12 - n := 0])"
    using capture_shape [OF len, of player i] by blast
  then show ?thesis
  proof cases
    case same
    with len show ?thesis by simp
  next
    case (took s n)
    note who = took(1) and one = took(2) and opp = took(3) and cap = took(4)
    let ?r = "b[s := b ! s + (b ! (12 - n) + 1), n := 0, 12 - n := 0]"
    from who have idx: "s < 14" "n < 14" "12 - n < 14" "s \<noteq> n" "s \<noteq> 12 - n" "n \<noteq> 12 - n"
      by linarith+
    have sum: "sum_list ?r = sum_list b"
      using idx len one by (simp add: sum_list_upd)
    have nonneg: "\<forall>x\<in>set ?r. 0 \<le> x" if nn: "\<forall>x\<in>set b. 0 \<le> x"
    proof -
      from nn idx len have "0 \<le> b ! s" by simp
      with opp have v: "0 \<le> b ! s + (b ! (12 - n) + 1)" by simp
      have "set ?r \<subseteq> insert 0 (set (b[s := b ! s + (b ! (12 - n) + 1), n := 0]))"
        by (rule set_update_subset_insert)
      also have "\<dots> \<subseteq> insert 0 (insert 0 (set (b[s := b ! s + (b ! (12 - n) + 1)])))"
        by (rule insert_mono) (rule set_update_subset_insert)
      also have "\<dots> \<subseteq> insert 0 (insert 0 (insert (b ! s + (b ! (12 - n) + 1)) (set b)))"
        by (intro insert_mono) (rule set_update_subset_insert)
      finally show ?thesis using nn v by auto
    qed
    have s13: "?r ! 13 = b ! 13" if "player = 1"
    proof -
      from that who have "s = 6" "n < 6" by linarith+
      then show ?thesis by simp
    qed
    have s6: "?r ! 6 = b ! 6" if "player = 2"
    proof -
      from that who have "s = 13" "7 \<le> n" "n < 13" by linarith+
      then show ?thesis by simp
    qed
    from cap sum nonneg len s13 s6 show ?thesis by simp
  qed
qed

lemma make_move_cases:
  assumes len: "length board = 14"
  obtains (refused) "illegal board pit player"
      "make_move board pit player = Some (Inr (False, board, False))"
  | (played) b2 i b3 where "\<not> illegal board pit player"
      "sow player (board[nat pit := 0]) pit (board ! nat pit) = Some (Inr (b2, i))"
      "length b2 = 14" "capture player b2 i = Inr b3" "length b3 = 14"
      "make_move board pit player =
         Some (Inr (True, b3, player = 1 \<and> i = 6 \<or> player = 2 \<and> i = 13))"
proof (cases "illegal board pit player")
  case True
  with make_move_illegal [OF len] refused show ?thesis by blast
next
  case False
  have l0: "length (board[nat pit := 0]) = 14" using len by simp
  from sow_facts [OF l0, of player pit "board ! nat pit"]
  obtain b2 i where s: "sow player (board[nat pit := 0]) pit (board ! nat pit) = Some (Inr (b2, i))"
    and l2: "length b2 = 14" by blast
  from capture_keeps [OF l2, of player i]
  obtain b3 where c: "capture player b2 i = Inr b3" and l3: "length b3 = 14" by blast
  from played [OF False s l2 c l3 make_move_legal [OF len False s c]] show ?thesis .
qed

section \<open>Validation\<close>

text \<open>
  C4: on a board of 14 positions, \<^verbatim>\<open>make_move\<close> returns (False, board, False), the
  board as it was, exactly when the move is invalid: for Player 1 a pit outside 0..5 or
  an empty pit, for Player 2 a pit outside 7..12 or an empty pit. Otherwise the validity
  flag is True, and no call raises.
\<close>

theorem make_move_validation:
  assumes "length board = 14"
  shows "(make_move board pit 1 = Some (Inr (False, board, False))
            \<longleftrightarrow> pit < 0 \<or> 5 < pit \<or> board ! nat pit = 0) \<and>
         (make_move board pit 2 = Some (Inr (False, board, False))
            \<longleftrightarrow> pit < 7 \<or> 12 < pit \<or> board ! nat pit = 0) \<and>
         (\<forall>player\<in>{1, 2}.
            make_move board pit player = Some (Inr (False, board, False)) \<or>
            (\<exists>b e. make_move board pit player = Some (Inr (True, b, e)))) \<and>
         (\<forall>player\<in>{1, 2}. \<forall>e. make_move board pit player \<noteq> Some (Inl e))"
proof -
  have one: "make_move board pit player = Some (Inr (False, board, False))
               \<longleftrightarrow> illegal board pit player" for player
    by (rule make_move_cases [OF assms, of pit player]) simp_all
  have two: "make_move board pit player = Some (Inr (False, board, False)) \<or>
               (\<exists>b e. make_move board pit player = Some (Inr (True, b, e)))" for player
    by (rule make_move_cases [OF assms, of pit player]) simp_all
  have three: "make_move board pit player \<noteq> Some (Inl e)" for player e
    by (rule make_move_cases [OF assms, of pit player]) simp_all
  from one [of 1] one [of 2] two three show ?thesis
    by (simp add: illegal_def)
qed

theorem make_move_validation_witness:
  "make_move init_board 6 1 = Some (Inr (False, init_board, False)) \<and>
   make_move init_board 6 2 = Some (Inr (False, init_board, False)) \<and>
   (\<exists>b e. make_move init_board 3 1 = Some (Inr (True, b, e))) \<and>
   make_move init_board 3 1 \<noteq> Some (Inl IndexError)"
proof -
  have l: "length init_board = 14" by (simp add: init_board_def)
  have v: "init_board ! 3 \<noteq> 0" by (simp add: init_board_def)
  from make_move_validation [OF l, of 6] make_move_validation [OF l, of 3] v
  show ?thesis by auto
qed

section \<open>Facts about a whole move and about the final sweep\<close>

lemma init_board_list: "init_board = [4, 4, 4, 4, 4, 4, 0, 4, 4, 4, 4, 4, 4, 0]"
  by (simp add: init_board_def eval_nat_numeral)

lemma make_move_played:
  assumes len: "length board = 14" and ok: "\<not> illegal board pit player"
  obtains b2 i b3 where
    "sow player (board[nat pit := 0]) pit (board ! nat pit) = Some (Inr (b2, i))"
    "length b2 = 14"
    "0 < board ! nat pit \<longrightarrow> 0 \<le> i \<and> i < 14 \<and> \<not> skipped player i"
    "sum_list b2 = sum_list board - board ! nat pit + max 0 (board ! nat pit)"
    "\<forall>k<14. board[nat pit := 0] ! k \<le> b2 ! k"
    "player = 1 \<longrightarrow> b2 ! 13 = board ! 13"
    "player = 2 \<longrightarrow> b2 ! 6 = board ! 6"
    "capture player b2 i = Inr b3" "length b3 = 14" "sum_list b3 = sum_list b2"
    "(\<forall>x\<in>set b2. 0 \<le> x) \<longrightarrow> (\<forall>x\<in>set b3. 0 \<le> x)"
    "player = 1 \<longrightarrow> b3 ! 13 = b2 ! 13"
    "player = 2 \<longrightarrow> b3 ! 6 = b2 ! 6"
    "make_move board pit player =
       Some (Inr (True, b3, player = 1 \<and> i = 6 \<or> player = 2 \<and> i = 13))"
proof -
  have l0: "length (board[nat pit := 0]) = 14" using len by simp
  from legal_range [OF ok] len have p: "nat pit < length board" by linarith
  have away: "player = 1 \<longrightarrow> nat pit \<noteq> 13" "player = 2 \<longrightarrow> nat pit \<noteq> 6"
    using ok by (auto simp: illegal_def)
  from sow_facts [OF l0, of player pit "board ! nat pit"]
  obtain b2 i where s: "sow player (board[nat pit := 0]) pit (board ! nat pit) = Some (Inr (b2, i))"
    and l2: "length b2 = 14"
    and land: "0 < board ! nat pit \<longrightarrow> 0 \<le> i \<and> i < 14 \<and> \<not> skipped player i"
    and sum: "sum_list b2 = sum_list (board[nat pit := 0]) + max 0 (board ! nat pit)"
    and mono: "\<forall>k<14. board[nat pit := 0] ! k \<le> b2 ! k"
    and s13: "player = 1 \<longrightarrow> b2 ! 13 = board[nat pit := 0] ! 13"
    and s6: "player = 2 \<longrightarrow> b2 ! 6 = board[nat pit := 0] ! 6"
    by blast
  from sum p have sum': "sum_list b2 = sum_list board - board ! nat pit + max 0 (board ! nat pit)"
    by (simp add: sum_list_upd)
  from s13 away have s13': "player = 1 \<longrightarrow> b2 ! 13 = board ! 13" by simp
  from s6 away have s6': "player = 2 \<longrightarrow> b2 ! 6 = board ! 6" by simp
  from capture_keeps [OF l2, of player i]
  obtain b3 where c: "capture player b2 i = Inr b3" and l3: "length b3 = 14"
    and c1: "sum_list b3 = sum_list b2"
    and c2: "(\<forall>x\<in>set b2. 0 \<le> x) \<longrightarrow> (\<forall>x\<in>set b3. 0 \<le> x)"
    and c3: "player = 1 \<longrightarrow> b3 ! 13 = b2 ! 13" and c4: "player = 2 \<longrightarrow> b3 ! 6 = b2 ! 6"
    by blast
  from that [OF s l2 land sum' mono s13' s6' c l3 c1 c2 c3 c4 make_move_legal [OF len ok s c]]
  show ?thesis .
qed

lemma nonneg_after_sowing:
  fixes board b2 :: "int list"
  assumes len: "length board = 14" "length b2 = 14" and nonneg: "\<forall>x\<in>set board. 0 \<le> x"
    and mono: "\<forall>k<14. board[p := 0] ! k \<le> b2 ! k"
  shows "\<forall>x\<in>set b2. 0 \<le> x"
proof -
  have "0 \<le> b2 ! k" if k: "k < 14" for k
  proof -
    have "set (board[p := 0]) \<subseteq> insert 0 (set board)" by (rule set_update_subset_insert)
    moreover have "board[p := 0] ! k \<in> set (board[p := 0])" using k len by simp
    ultimately have "0 \<le> board[p := 0] ! k" using nonneg by auto
    with mono k show ?thesis by force
  qed
  with len(2) show ?thesis by (auto simp: in_set_conv_nth)
qed

lemma list14:
  assumes "length xs = 14"
  obtains a0 a1 a2 a3 a4 a5 a6 a7 a8 a9 a10 a11 a12 a13
  where "xs = [a0, a1, a2, a3, a4, a5, a6, a7, a8, a9, a10, a11, a12, a13]"
  using assms by (auto simp: eval_nat_numeral length_Suc_conv)

lemma range6: "[0..<6] = [0, 1, 2, 3, 4, 5]" "[7..<13] = [7, 8, 9, 10, 11, 12]"
  by (simp_all add: upt_rec)

lemma collect_explicit:
  "collect_remaining_stones [a0, a1, a2, a3, a4, a5, a6, a7, a8, a9, a10, a11, a12, a13] =
     Inr [0, 0, 0, 0, 0, 0, a6 + (a0 + a1 + a2 + a3 + a4 + a5),
          0, 0, 0, 0, 0, 0, a13 + (a7 + a8 + a9 + a10 + a11 + a12)]"
  by (simp add: collect_remaining_stones_def zero_range_def range6 getitem_def setitem_def
      subscript_def)

lemma collect14:
  assumes "length board = 14"
  shows "\<exists>b. collect_remaining_stones board = Inr b \<and> length b = 14 \<and>
           sum_list b = sum_list board \<and>
           b ! 6 = board ! 6 + (\<Sum>k = 0..<6. board ! k) \<and>
           b ! 13 = board ! 13 + (\<Sum>k = 7..<13. board ! k) \<and>
           (\<forall>k\<in>{0..<6} \<union> {7..<13}. b ! k = 0) \<and>
           ((\<forall>x\<in>set board. 0 \<le> x) \<longrightarrow> (\<forall>x\<in>set b. 0 \<le> x)) \<and>
           collect_remaining_stones b = Inr b"
proof -
  from assms obtain a0 a1 a2 a3 a4 a5 a6 a7 a8 a9 a10 a11 a12 a13
    where b: "board = [a0, a1, a2, a3, a4, a5, a6, a7, a8, a9, a10, a11, a12, a13]"
    by (rule list14)
  let ?r = "[0, 0, 0, 0, 0, 0, a6 + (a0 + a1 + a2 + a3 + a4 + a5),
          0, 0, 0, 0, 0, 0, a13 + (a7 + a8 + a9 + a10 + a11 + a12)]"
  have c: "collect_remaining_stones board = Inr ?r"
    unfolding b by (rule collect_explicit)
  have again: "collect_remaining_stones ?r = Inr ?r"
    by (simp add: collect_explicit)
  have s6: "(\<Sum>k = 0..<6. board ! k) = a0 + a1 + a2 + a3 + a4 + a5"
    by (simp add: b eval_nat_numeral)
  have s13: "(\<Sum>k = 7..<13. board ! k) = a7 + a8 + a9 + a10 + a11 + a12"
    by (simp add: b eval_nat_numeral)
  have z: "\<forall>k\<in>{0..<6} \<union> {7..<13}. ?r ! k = 0"
  proof
    fix k :: nat assume "k \<in> {0..<6} \<union> {7..<13}"
    then have "k \<in> {0, 1, 2, 3, 4, 5, 7, 8, 9, 10, 11, 12}" by auto
    then show "?r ! k = 0" by auto
  qed
  have nn: "(\<forall>x\<in>set board. 0 \<le> x) \<longrightarrow> (\<forall>x\<in>set ?r. 0 \<le> x)"
    by (simp add: b)
  have "length ?r = 14" "sum_list ?r = sum_list board" "?r ! 6 = board ! 6 + (\<Sum>k = 0..<6. board ! k)"
    "?r ! 13 = board ! 13 + (\<Sum>k = 7..<13. board ! k)"
    by (simp_all add: s6 s13) (simp_all add: b)
  with c again z nn show ?thesis by blast
qed

lemma make_move_sum:
  assumes len: "length board = 14" and nonneg: "\<forall>x\<in>set board. 0 \<le> x"
  shows "\<exists>valid b e. make_move board pit player = Some (Inr (valid, b, e)) \<and>
           length b = 14 \<and> sum_list b = sum_list board"
proof (cases "illegal board pit player")
  case True
  with make_move_illegal [OF len] len show ?thesis by blast
next
  case False
  from legal_range [OF False] len have "nat pit < length board" by linarith
  with nonneg have "0 \<le> board ! nat pit" by simp
  then have m: "max 0 (board ! nat pit) = board ! nat pit" by simp
  show ?thesis
  proof (rule make_move_played [OF len False])
    fix b2 b3 :: "int list" and i :: int
    assume "sum_list b2 = sum_list board - board ! nat pit + max 0 (board ! nat pit)"
      and "length b3 = 14" and "sum_list b3 = sum_list b2"
      and "make_move board pit player =
         Some (Inr (True, b3, player = 1 \<and> i = 6 \<or> player = 2 \<and> i = 13))"
    with m show ?thesis by auto
  qed
qed

lemma make_move_nonneg:
  assumes len: "length board = 14" and nonneg: "\<forall>x\<in>set board. 0 \<le> x"
  shows "\<exists>valid b e. make_move board pit player = Some (Inr (valid, b, e)) \<and>
           (\<forall>x\<in>set b. 0 \<le> x)"
proof (cases "illegal board pit player")
  case True
  with make_move_illegal [OF len] nonneg show ?thesis by blast
next
  case False
  show ?thesis
  proof (rule make_move_played [OF len False])
    fix b2 b3 :: "int list" and i :: int
    assume l2: "length b2 = 14"
      and mono: "\<forall>k<14. board[nat pit := 0] ! k \<le> b2 ! k"
      and keep: "(\<forall>x\<in>set b2. 0 \<le> x) \<longrightarrow> (\<forall>x\<in>set b3. 0 \<le> x)"
      and res: "make_move board pit player =
         Some (Inr (True, b3, player = 1 \<and> i = 6 \<or> player = 2 \<and> i = 13))"
    from nonneg_after_sowing [OF len l2 nonneg mono] keep have "\<forall>x\<in>set b3. 0 \<le> x" by blast
    with res show ?thesis by blast
  qed
qed

lemma make_move_other_store:
  assumes len: "length board = 14"
  shows "\<exists>valid b e. make_move board pit player = Some (Inr (valid, b, e)) \<and>
           (player = 1 \<longrightarrow> b ! 13 = board ! 13) \<and> (player = 2 \<longrightarrow> b ! 6 = board ! 6)"
proof (cases "illegal board pit player")
  case True
  with make_move_illegal [OF len] show ?thesis by blast
next
  case False
  show ?thesis
  proof (rule make_move_played [OF len False])
    fix b2 b3 :: "int list" and i :: int
    assume "player = 1 \<longrightarrow> b2 ! 13 = board ! 13" and "player = 2 \<longrightarrow> b2 ! 6 = board ! 6"
      and "player = 1 \<longrightarrow> b3 ! 13 = b2 ! 13" and "player = 2 \<longrightarrow> b3 ! 6 = b2 ! 6"
      and "make_move board pit player =
         Some (Inr (True, b3, player = 1 \<and> i = 6 \<or> player = 2 \<and> i = 13))"
    then show ?thesis by auto
  qed
qed

section \<open>Termination of the distribution loop\<close>

text \<open>
  C9: for a board of 14 non-negative counts and a pit and player that pass the
  validation, the distribution loop finishes (its result is not \<open>None\<close>) without an
  exception, and \<^verbatim>\<open>make_move\<close> returns a result with the validity flag True.
\<close>

theorem make_move_terminates:
  assumes len: "length board = 14" and nonneg: "\<forall>x\<in>set board. 0 \<le> x"
    and own: "player = 1 \<and> 0 \<le> pit \<and> pit \<le> 5 \<or> player \<noteq> 1 \<and> 7 \<le> pit \<and> pit \<le> 12"
    and stones: "0 < board ! nat pit"
  shows "(\<exists>sown index. sow player (board[nat pit := 0]) pit (board ! nat pit)
            = Some (Inr (sown, index))) \<and>
         (\<exists>b e. make_move board pit player = Some (Inr (True, b, e)))"
proof -
  from own stones have ok: "\<not> illegal board pit player"
    by (auto simp: illegal_def)
  show ?thesis
    by (rule make_move_cases [OF len, of pit player]) (use ok in auto)
qed

theorem make_move_terminates_witness:
  "(\<exists>sown index. sow 1 (init_board[nat 5 := 0]) 5 (init_board ! nat 5) = Some (Inr (sown, index))) \<and>
   (\<exists>b e. make_move init_board 5 1 = Some (Inr (True, b, e)))"
proof -
  have l: "length init_board = 14" by (simp add: init_board_list)
  have n: "\<forall>x\<in>set init_board. 0 \<le> x" by (simp add: init_board_list)
  have o: "(1::int) = 1 \<and> (0::int) \<le> 5 \<and> (5::int) \<le> 5 \<or> (1::int) \<noteq> 1 \<and> (7::int) \<le> 5 \<and> (5::int) \<le> 12" by simp
  have s: "0 < init_board ! nat 5" by (simp add: init_board_list)
  from make_move_terminates [OF l n o s] show ?thesis .
qed

section \<open>Invariants and frame conditions\<close>

text \<open>
  C1: conservation. A board of 14 non-negative counts that sum to 48 still sums to 48
  after \<^verbatim>\<open>make_move\<close>, for every pit and every player value, valid move or not; and
  a board of 14 counts that sum to 48 still sums to 48 after
  \<^verbatim>\<open>collect_remaining_stones\<close>. Both return a board of 14 positions, so the
  statement applies again to the result.
\<close>

theorem stones_conserved:
  "(length board = 14 \<and> (\<forall>x\<in>set board. 0 \<le> x) \<and> sum_list board = 48 \<longrightarrow>
      (\<exists>valid b e. make_move board pit player = Some (Inr (valid, b, e)) \<and>
         length b = 14 \<and> sum_list b = 48)) \<and>
   (length board = 14 \<and> sum_list board = 48 \<longrightarrow>
      (\<exists>b. collect_remaining_stones board = Inr b \<and> length b = 14 \<and> sum_list b = 48))"
proof (intro conjI impI)
  assume a: "length board = 14 \<and> (\<forall>x\<in>set board. 0 \<le> x) \<and> sum_list board = 48"
  then have "length board = 14" "\<forall>x\<in>set board. 0 \<le> x" by simp_all
  from make_move_sum [OF this, of pit player] a
  show "\<exists>valid b e. make_move board pit player = Some (Inr (valid, b, e)) \<and>
         length b = 14 \<and> sum_list b = 48" by simp
next
  assume a: "length board = 14 \<and> sum_list board = 48"
  then have "length board = 14" by simp
  from collect14 [OF this] a
  show "\<exists>b. collect_remaining_stones board = Inr b \<and> length b = 14 \<and> sum_list b = 48"
    by auto
qed

theorem stones_conserved_witness:
  "sum_list init_board = 48 \<and>
   (\<exists>valid b e. make_move init_board 2 1 = Some (Inr (valid, b, e)) \<and>
      length b = 14 \<and> sum_list b = 48) \<and>
   (\<exists>b. collect_remaining_stones init_board = Inr b \<and> length b = 14 \<and> sum_list b = 48)"
proof -
  have h: "length init_board = 14 \<and> (\<forall>x\<in>set init_board. 0 \<le> x) \<and> sum_list init_board = 48"
    by (simp add: init_board_list)
  with stones_conserved [of init_board 2 1] show ?thesis by blast
qed

text \<open>
  C8: on a board of 14 non-negative counts, every count of the board returned by
  \<^verbatim>\<open>make_move\<close> (any pit, any player) and by \<^verbatim>\<open>collect_remaining_stones\<close> is
  non-negative.
\<close>

theorem counts_stay_nonnegative:
  assumes "length board = 14" and "\<forall>x\<in>set board. 0 \<le> x"
  shows "(\<exists>valid b e. make_move board pit player = Some (Inr (valid, b, e)) \<and>
            (\<forall>x\<in>set b. 0 \<le> x)) \<and>
         (\<exists>b. collect_remaining_stones board = Inr b \<and> (\<forall>x\<in>set b. 0 \<le> x))"
proof
  show "\<exists>valid b e. make_move board pit player = Some (Inr (valid, b, e)) \<and>
            (\<forall>x\<in>set b. 0 \<le> x)"
    by (rule make_move_nonneg [OF assms])
  from collect14 [OF assms(1)] assms(2)
  show "\<exists>b. collect_remaining_stones board = Inr b \<and> (\<forall>x\<in>set b. 0 \<le> x)"
    by blast
qed

theorem counts_stay_nonnegative_witness:
  "(\<exists>valid b e. make_move init_board 8 2 = Some (Inr (valid, b, e)) \<and>
            (\<forall>x\<in>set b. 0 \<le> x)) \<and>
   (\<exists>b. collect_remaining_stones init_board = Inr b \<and> (\<forall>x\<in>set b. 0 \<le> x))"
proof -
  have l: "length init_board = 14" and n: "\<forall>x\<in>set init_board. 0 \<le> x"
    by (simp_all add: init_board_list)
  from counts_stay_nonnegative [OF l n] show ?thesis .
qed

text \<open>
  C6: a move by Player 1, valid or not, leaves position 13 (Player 2's store) as it was,
  and a move by Player 2 leaves position 6 (Player 1's store) as it was.
\<close>

theorem opponent_store_untouched:
  assumes "length board = 14"
  shows "(\<exists>valid b e. make_move board pit 1 = Some (Inr (valid, b, e)) \<and> b ! 13 = board ! 13) \<and>
         (\<exists>valid b e. make_move board pit 2 = Some (Inr (valid, b, e)) \<and> b ! 6 = board ! 6)"
  using make_move_other_store [OF assms, of pit 1] make_move_other_store [OF assms, of pit 2]
  by simp

theorem opponent_store_untouched_witness:
  "(\<exists>valid b e. make_move init_board 5 1 = Some (Inr (valid, b, e)) \<and> b ! 13 = init_board ! 13) \<and>
   (\<exists>valid b e. make_move init_board 12 2 = Some (Inr (valid, b, e)) \<and> b ! 6 = init_board ! 6)"
proof -
  have l: "length init_board = 14" by (simp add: init_board_list)
  from opponent_store_untouched [OF l, of 5] opponent_store_untouched [OF l, of 12]
  show ?thesis by blast
qed

text \<open>
  C7: \<^verbatim>\<open>collect_remaining_stones\<close> returns a board whose store 6 is the old store plus
  the old pits 0-5, whose store 13 is the old store plus the old pits 7-12, and whose
  twelve pits are 0; a second call returns that board unchanged.
\<close>

theorem collect_remaining_stones_sweeps:
  assumes "length board = 14"
  shows "\<exists>b. collect_remaining_stones board = Inr b \<and>
           b ! 6 = board ! 6 + (\<Sum>k = 0..<6. board ! k) \<and>
           b ! 13 = board ! 13 + (\<Sum>k = 7..<13. board ! k) \<and>
           (\<forall>k\<in>{0..<6} \<union> {7..<13}. b ! k = 0) \<and>
           collect_remaining_stones b = Inr b"
  using collect14 [OF assms] by blast

theorem collect_remaining_stones_sweeps_witness:
  "\<exists>b. collect_remaining_stones init_board = Inr b \<and>
           b ! 6 = init_board ! 6 + (\<Sum>k = 0..<6. init_board ! k) \<and>
           b ! 13 = init_board ! 13 + (\<Sum>k = 7..<13. init_board ! k) \<and>
           (\<forall>k\<in>{0..<6} \<union> {7..<13}. b ! k = 0) \<and>
           collect_remaining_stones b = Inr b"
proof -
  have l: "length init_board = 14" by (simp add: init_board_list)
  from collect_remaining_stones_sweeps [OF l] show ?thesis .
qed

section \<open>Sowing without a skipped position\<close>

text \<open>
  Arithmetic of laps around the 14 positions: a position that is \<open>d\<close> steps ahead of
  the first deposit receives \<open>(n + 13 - d) div 14\<close> of \<open>n\<close> stones.
\<close>

lemma div14_split:
  fixes q x :: int
  shows "(14 * q + x) div 14 = q + x div 14"
  by simp

lemma div14_low: "0 \<le> x \<Longrightarrow> x < 14 \<Longrightarrow> x div 14 = (0::int)"
  by simp

lemma div14_high: "14 \<le> x \<Longrightarrow> x < 28 \<Longrightarrow> x div 14 = (1::int)"
  by simp

lemma lap_count_step:
  fixes m d :: int
  assumes d: "0 \<le> d" "d < 14"
  shows "(m + 1 + 13 - d) div 14 = (m + 13 - d) div 14 + (if d = m mod 14 then 1 else 0)"
proof -
  define q r where "q = m div 14" and "r = m mod 14"
  have m: "m = 14 * q + r" and r: "0 \<le> r" "r < 14"
    by (simp_all add: q_def r_def)
  have a: "(m + 1 + 13 - d) div 14 = q + (r + 14 - d) div 14"
    using div14_split [of q "r + 14 - d"] by (simp add: m algebra_simps)
  have b: "(m + 13 - d) div 14 = q + (r + 13 - d) div 14"
    using div14_split [of q "r + 13 - d"] by (simp add: m algebra_simps)
  consider "r = d" | "r < d" | "d < r" by linarith
  then have "(r + 14 - d) div 14 = (r + 13 - d) div 14 + (if d = r then 1 else 0)"
  proof cases
    case 1
    then show ?thesis by simp
  next
    case 2
    with r d have "(r + 14 - d) div 14 = 0" "(r + 13 - d) div 14 = 0"
      by (simp_all add: div14_low)
    with 2 show ?thesis by simp
  next
    case 3
    with r d have "(r + 14 - d) div 14 = 1" "(r + 13 - d) div 14 = 1"
      by (simp_all add: div14_high)
    with 3 show ?thesis by simp
  qed
  with a b show ?thesis by (simp add: r_def)
qed

lemma lap_count_hit:
  fixes m d :: int
  assumes "0 \<le> d" "d < 14" "d = m mod 14"
  shows "(m + 1 + 13 - d) div 14 = (m + 13 - d) div 14 + 1"
  using lap_count_step [OF assms(1,2), of m] assms(3) by simp

lemma lap_count_miss:
  fixes m d :: int
  assumes "0 \<le> d" "d < 14" "d \<noteq> m mod 14"
  shows "(m + 1 + 13 - d) div 14 = (m + 13 - d) div 14"
  using lap_count_step [OF assms(1,2), of m] assms(3) by simp

lemma lap_offset:
  fixes k i m :: int
  assumes k: "0 \<le> k" "k < 14"
  shows "(k - i - 1) mod 14 = m mod 14 \<longleftrightarrow> k = (i + m + 1) mod 14"
proof
  assume "(k - i - 1) mod 14 = m mod 14"
  then have "(k - i - 1 + (i + 1)) mod 14 = (m + (i + 1)) mod 14"
    by (rule mod_add_cong) simp
  then have "k mod 14 = (i + m + 1) mod 14" by (simp add: algebra_simps)
  with k show "k = (i + m + 1) mod 14" by simp
next
  assume "k = (i + m + 1) mod 14"
  then have "(k - i - 1) mod 14 = ((i + m + 1) mod 14 - (i + 1)) mod 14" by (simp add: algebra_simps)
  also have "\<dots> = ((i + m + 1) - (i + 1)) mod 14" by (simp add: mod_diff_left_eq)
  finally show "(k - i - 1) mod 14 = m mod 14" by simp
qed

lemma next_index: "((i + m) mod 14 + 1) mod 14 = (i + m + 1) mod (14::int)"
  by (simp add: mod_add_left_eq)

lemma sow_every_position:
  assumes len: "length board = 14" and p: "player \<noteq> 1" "player \<noteq> 2"
    and n: "0 \<le> n" and i: "0 \<le> index" "index < 14"
  shows "\<exists>sown. sow player board index n = Some (Inr (sown, (index + n) mod 14)) \<and>
           length sown = 14 \<and>
           (\<forall>k<14. sown ! k = board ! k + (n + 13 - (int k - index - 1) mod 14) div 14)"
proof -
  define I where "I = (\<lambda>b j s. 0 \<le> s \<and> s \<le> n \<and> j = (index + (n - s)) mod 14 \<and>
      (\<forall>k<14. b ! k = board ! k + ((n - s) + 13 - (int k - index - 1) mod 14) div 14))"
  have ns: "\<not> skipped player j" for j
    using p by (simp add: skipped_def)
  have init: "I board index n"
  proof -
    have "(13 - (int k - index - 1) mod 14) div 14 = 0" for k
      by (rule div14_low) simp_all
    with n i show ?thesis by (simp add: I_def)
  qed
  have skip: "I b ((j + 1) mod 14) s"
    if "length b = 14" "I b j s" "0 < s" "skipped player ((j + 1) mod 14)" for b j s
    using that ns by simp
  have dep: "I (b[nat ((j + 1) mod 14) := b ! nat ((j + 1) mod 14) + 1]) ((j + 1) mod 14) (s - 1)"
    if b: "length b = 14" and inv: "I b j s" and s: "0 < s" for b j s
  proof -
    let ?m = "n - s"
    let ?j = "(j + 1) mod 14"
    from inv have j: "j = (index + ?m) mod 14" and sn: "s \<le> n"
      and cnt: "\<forall>k<14. b ! k = board ! k + (?m + 13 - (int k - index - 1) mod 14) div 14"
      by (simp_all add: I_def)
    have j': "?j = (index + ?m + 1) mod 14"
      unfolding j by (rule next_index)
    have jr: "0 \<le> ?j" "?j < 14" by simp_all
    have "b[nat ?j := b ! nat ?j + 1] ! k =
            board ! k + ((n - (s - 1)) + 13 - (int k - index - 1) mod 14) div 14"
      if k: "k < 14" for k
    proof -
      define d where "d = (int k - index - 1) mod 14"
      have d: "0 \<le> d" "d < 14" by (simp_all add: d_def)
      have off: "d = ?m mod 14 \<longleftrightarrow> int k = ?j"
        unfolding j' d_def using k by (intro lap_offset) simp_all
      have kj: "int k = ?j \<longleftrightarrow> k = nat ?j" using jr by linarith
      have e: "n - (s - 1) = ?m + 1" by simp
      from cnt k have bk: "b ! k = board ! k + (?m + 13 - d) div 14"
        unfolding d_def by blast
      have "b[nat ?j := b ! nat ?j + 1] ! k = board ! k + (?m + 1 + 13 - d) div 14"
      proof (cases "k = nat ?j")
        case True
        with kj off have "d = ?m mod 14" by blast
        then have hit: "(?m + 1 + 13 - d) div 14 = (?m + 13 - d) div 14 + 1"
          by (rule lap_count_hit [OF d])
        from k b have "nat ?j < length b \<longrightarrow> b[nat ?j := b ! nat ?j + 1] ! nat ?j = b ! nat ?j + 1"
          by (simp only: nth_list_update_eq) blast
        with True k b have "b[nat ?j := b ! nat ?j + 1] ! k = b ! k + 1" by auto
        also have "\<dots> = board ! k + (?m + 1 + 13 - d) div 14"
          unfolding bk hit by (rule add.assoc)
        finally show ?thesis .
      next
        case False
        with kj off have "d \<noteq> ?m mod 14" by blast
        then have miss: "(?m + 1 + 13 - d) div 14 = (?m + 13 - d) div 14"
          by (rule lap_count_miss [OF d])
        from False have "b[nat ?j := b ! nat ?j + 1] ! k = b ! k"
          by (simp only: nth_list_update_neq not_sym)
        also have "\<dots> = board ! k + (?m + 1 + 13 - d) div 14"
          unfolding bk miss by (rule refl)
        finally show ?thesis .
      qed
      then show ?thesis unfolding e d_def .
    qed
    moreover have "(j + 1) mod 14 = (index + (n - (s - 1))) mod 14"
      using j' by (simp add: algebra_simps)
    ultimately show ?thesis
      using s sn unfolding I_def by simp
  qed
  from sow_rule [of board I index n player, OF len init skip dep]
  obtain b' i' s' where r: "sow player board index n = Some (Inr (b', i'))"
    "length b' = 14" "I b' i' s'" "s' \<le> 0"
    by blast
  from r(3,4) have z: "s' = 0" by (simp add: I_def)
  with r(3) have "i' = (index + n) mod 14"
    "\<forall>k<14. b' ! k = board ! k + (n + 13 - (int k - index - 1) mod 14) div 14"
    by (simp_all add: I_def)
  with r(1,2) show ?thesis by simp
qed

lemma legal_own:
  "player = 1 \<and> 0 \<le> pit \<and> pit \<le> 5 \<or> player = 2 \<and> 7 \<le> pit \<and> pit \<le> 12 \<Longrightarrow>
   0 < board ! nat pit \<Longrightarrow> \<not> illegal board pit player"
  by (auto simp: illegal_def)

lemma first_move: "make_move init_board 2 1 =
    Some (Inr (True, [4, 4, 0, 5, 5, 5, 1, 4, 4, 4, 4, 4, 4, 0], True))"
  by code_simp

section \<open>The capture rule\<close>

text \<open>
  C2: for a valid move by player p (1 or 2), let \<open>sown\<close> be the board after the
  distribution loop and \<open>index\<close> the position of the last stone. If \<open>index\<close> is one of
  p's own pits (0-5 for Player 1, 7-12 for Player 2), that pit holds exactly 1 stone and
  pit \<open>12 - index\<close> holds more than 0, then \<^verbatim>\<open>make_move\<close> adds the opposite pit's
  stones plus 1 to p's store (6 or 13), empties both pits and changes nothing else;
  otherwise it returns the board as sown.
\<close>

theorem capture_rule:
  assumes len: "length board = 14"
    and own: "player = 1 \<and> 0 \<le> pit \<and> pit \<le> 5 \<or> player = 2 \<and> 7 \<le> pit \<and> pit \<le> 12"
    and stones: "0 < board ! nat pit"
  shows "\<exists>sown index extra.
           sow player (board[nat pit := 0]) pit (board ! nat pit) = Some (Inr (sown, index)) \<and>
           0 \<le> index \<and> index < 14 \<and>
           (if (if player = 1 then index \<le> 5 else 7 \<le> index \<and> index \<le> 12) \<and>
               sown ! nat index = 1 \<and> 0 < sown ! nat (12 - index)
            then \<exists>final. make_move board pit player = Some (Inr (True, final, extra)) \<and>
                   length final = 14 \<and>
                   final ! (if player = 1 then 6 else 13) =
                     sown ! (if player = 1 then 6 else 13) + (sown ! nat (12 - index) + 1) \<and>
                   final ! nat index = 0 \<and> final ! nat (12 - index) = 0 \<and>
                   (\<forall>k<14. k \<noteq> (if player = 1 then 6 else 13) \<and> k \<noteq> nat index \<and>
                      k \<noteq> nat (12 - index) \<longrightarrow> final ! k = sown ! k)
            else make_move board pit player = Some (Inr (True, sown, extra)))"
proof (rule make_move_played [OF len legal_own [OF own stones]])
  fix b2 b3 :: "int list" and i :: int
  assume s: "sow player (board[nat pit := 0]) pit (board ! nat pit) = Some (Inr (b2, i))"
    and l2: "length b2 = 14"
    and land: "0 < board ! nat pit \<longrightarrow> 0 \<le> i \<and> i < 14 \<and> \<not> skipped player i"
    and c: "capture player b2 i = Inr b3"
    and m: "make_move board pit player =
       Some (Inr (True, b3, player = 1 \<and> i = 6 \<or> player = 2 \<and> i = 13))"
  from land stones have r: "0 \<le> i" "i < 14" by simp_all
  let ?own = "(if player = 1 then i \<le> 5 else 7 \<le> i \<and> i \<le> 12)"
  let ?st = "if player = 1 then 6 else 13 :: nat"
  let ?cond = "?own \<and> b2 ! nat i = 1 \<and> 0 < b2 ! nat (12 - i)"
  have b3: "b3 = (if ?cond then b2[?st := b2 ! ?st + (b2 ! nat (12 - i) + 1), nat i := 0,
                                   nat (12 - i) := 0] else b2)"
  proof (cases "player = 1")
    case True
    with c capture_player1 [OF l2, of i] r show ?thesis by (auto split: if_splits)
  next
    case False
    with own have p: "player = 2" by simp
    with c capture_player2 [OF l2, of i] r show ?thesis by (auto split: if_splits)
  qed
  have fin: "length b3 = 14 \<and> b3 ! ?st = b2 ! ?st + (b2 ! nat (12 - i) + 1) \<and>
      b3 ! nat i = 0 \<and> b3 ! nat (12 - i) = 0 \<and>
      (\<forall>k<14. k \<noteq> ?st \<and> k \<noteq> nat i \<and> k \<noteq> nat (12 - i) \<longrightarrow> b3 ! k = b2 ! k)" if cond: ?cond
  proof -
    from cond own have d: "nat i \<noteq> ?st" "nat (12 - i) \<noteq> ?st" "nat i \<noteq> nat (12 - i)"
      "nat i < 14" "nat (12 - i) < 14" "?st < 14"
      using r by (auto split: if_splits)
    have e: "b3 = b2[?st := b2 ! ?st + (b2 ! nat (12 - i) + 1), nat i := 0,
                                   nat (12 - i) := 0]"
      by (subst b3, subst if_P [OF cond], rule refl)
    show ?thesis
      unfolding e using d l2 by simp
  qed
  let ?extra = "player = 1 \<and> i = 6 \<or> player = 2 \<and> i = 13"
  let ?taken = "\<lambda>final. make_move board pit player = Some (Inr (True, final, ?extra)) \<and>
                   length final = 14 \<and>
                   final ! ?st = b2 ! ?st + (b2 ! nat (12 - i) + 1) \<and>
                   final ! nat i = 0 \<and> final ! nat (12 - i) = 0 \<and>
                   (\<forall>k<14. k \<noteq> ?st \<and> k \<noteq> nat i \<and> k \<noteq> nat (12 - i) \<longrightarrow> final ! k = b2 ! k)"
  have body: "if ?cond then \<exists>final. ?taken final
              else make_move board pit player = Some (Inr (True, b2, ?extra))"
  proof (cases ?cond)
    case True
    from fin [OF True] m have "?taken b3" by simp
    then have "\<exists>final. ?taken final" by (rule exI)
    then show ?thesis by (subst if_P [OF True])
  next
    case False
    have "b3 = b2" by (subst b3, subst if_not_P [OF False], rule refl)
    with m have "make_move board pit player = Some (Inr (True, b2, ?extra))" by simp
    then show ?thesis by (subst if_not_P [OF False])
  qed
  show ?thesis
    by (rule exI [of _ b2], rule exI [of _ i], rule exI [of _ ?extra], intro conjI s r body)
qed

theorem capture_rule_witness:
  "\<exists>sown index extra.
     sow 1 ([1, 0, 4, 4, 4, 4, 6, 4, 4, 4, 4, 5, 4, 0][nat 0 := 0]) 0
        ([1, 0, 4, 4, 4, 4, 6, 4, 4, 4, 4, 5, 4, 0] ! nat 0) = Some (Inr (sown, index)) \<and>
     0 \<le> index \<and> index < 14 \<and>
     (if (if (1::int) = 1 then index \<le> 5 else 7 \<le> index \<and> index \<le> 12) \<and>
         sown ! nat index = 1 \<and> 0 < sown ! nat (12 - index)
      then \<exists>final. make_move [1, 0, 4, 4, 4, 4, 6, 4, 4, 4, 4, 5, 4, 0] 0 1 =
                      Some (Inr (True, final, extra)) \<and>
             length final = 14 \<and>
             final ! (if (1::int) = 1 then 6 else 13) =
               sown ! (if (1::int) = 1 then 6 else 13) + (sown ! nat (12 - index) + 1) \<and>
             final ! nat index = 0 \<and> final ! nat (12 - index) = 0 \<and>
             (\<forall>k<14. k \<noteq> (if (1::int) = 1 then 6 else 13) \<and> k \<noteq> nat index \<and>
                k \<noteq> nat (12 - index) \<longrightarrow> final ! k = sown ! k)
      else make_move [1, 0, 4, 4, 4, 4, 6, 4, 4, 4, 4, 5, 4, 0] 0 1 =
             Some (Inr (True, sown, extra)))"
  by (rule capture_rule) simp_all

text \<open>
  C3 as stated fails: with 4 stones in pit 0 the last stone lands on pit 4, not on pit 1.
  On the board below (pit 1 empty, pit 0 with 4 stones, pit 11 with 5 stones) nothing is
  captured: afterwards pit 1 holds 1, pit 11 holds 5 and store 6 is unchanged.
\<close>

theorem capture_example_counterexample:
  "[4, 0, 4, 4, 4, 4, 3, 4, 4, 4, 4, 5, 4, 0] ! 0 = (4::int) \<and>
   [4, 0, 4, 4, 4, 4, 3, 4, 4, 4, 4, 5, 4, 0] ! 1 = (0::int) \<and>
   [4, 0, 4, 4, 4, 4, 3, 4, 4, 4, 4, 5, 4, 0] ! 11 = (5::int) \<and>
   sow 1 [0, 0, 4, 4, 4, 4, 3, 4, 4, 4, 4, 5, 4, 0] 0 4 =
     Some (Inr ([0, 1, 5, 5, 5, 4, 3, 4, 4, 4, 4, 5, 4, 0], 4)) \<and>
   make_move [4, 0, 4, 4, 4, 4, 3, 4, 4, 4, 4, 5, 4, 0] 0 1 =
     Some (Inr (True, [0, 1, 5, 5, 5, 4, 3, 4, 4, 4, 4, 5, 4, 0], False))"
  by code_simp

text \<open>
  C3, amended: on every board in which pit 0 has 1 stone, pit 1 has 0 stones and pit 11
  has 5 stones, \<^verbatim>\<open>make_move(board, 0, 1)\<close> lands its last stone on pit 1, and
  afterwards pit 1 and pit 11 are 0 and store 6 has increased by 6.
\<close>

theorem capture_example_one_stone:
  assumes len: "length board = 14"
    and b0: "board ! 0 = 1" and b1: "board ! 1 = 0" and b11: "board ! 11 = 5"
  shows "\<exists>sown final.
           sow 1 (board[0 := 0]) 0 (board ! 0) = Some (Inr (sown, 1)) \<and>
           make_move board 0 1 = Some (Inr (True, final, False)) \<and>
           final ! 1 = 0 \<and> final ! 11 = 0 \<and> final ! 6 = board ! 6 + 6"
proof -
  let ?b0 = "board[0 := 0]"
  let ?b1 = "?b0[1 := 1]"
  have l0: "length ?b0 = 14" and l1: "length ?b1 = 14" using len by simp_all
  have b1': "board ! Suc 0 = 0" using b1 by simp
  have "sow 1 ?b0 0 1 = sow 1 ?b1 1 0"
    by (subst sow_step14 [OF l0]) (simp add: skipped_def b1')
  also have "\<dots> = Some (Inr (?b1, 1))"
    by (subst sow_step14 [OF l1]) simp
  finally have s: "sow 1 (board[nat 0 := 0]) 0 (board ! nat 0) = Some (Inr (?b1, 1))"
    by (simp add: b0)
  have ok: "\<not> illegal board 0 1" by (simp add: illegal_def b0)
  let ?f = "?b1[6 := ?b1 ! 6 + (?b1 ! 11 + 1), 1 := 0, 11 := 0]"
  have c: "capture 1 ?b1 1 = Inr ?f"
    by (subst capture_player1 [OF l1]) (use len in \<open>simp add: b11\<close>)
  from make_move_legal [OF len ok s c]
  have m: "make_move board 0 1 = Some (Inr (True, ?f, False))" by simp
  have "?f ! 1 = 0" "?f ! 11 = 0" "?f ! 6 = board ! 6 + 6"
    using len by (simp_all add: b11)
  with s m show ?thesis by (simp add: b0)
qed

theorem capture_example_one_stone_witness:
  "\<exists>sown final.
     sow 1 ([1, 0, 4, 4, 4, 4, 6, 4, 4, 4, 4, 5, 4, 0][0 := 0]) 0
        ([1, 0, 4, 4, 4, 4, 6, 4, 4, 4, 4, 5, 4, 0] ! 0) = Some (Inr (sown, 1)) \<and>
     make_move [1, 0, 4, 4, 4, 4, 6, 4, 4, 4, 4, 5, 4, 0] 0 1 = Some (Inr (True, final, False)) \<and>
     final ! 1 = 0 \<and> final ! 11 = 0 \<and>
     final ! 6 = [1, 0, 4, 4, 4, 4, 6, 4, 4, 4, 4, 5, 4, 0] ! 6 + 6"
  by (rule capture_example_one_stone) simp_all

section \<open>The extra turn\<close>

text \<open>
  C5: for a valid move of Player 1 or Player 2, the extra-turn flag returned by
  \<^verbatim>\<open>make_move\<close> is true exactly when the last stone lands in the player's own store
  (6 for Player 1, 13 for Player 2); and from the initial board, Player 1 playing pit 2
  gets the extra turn and store 6 holds 1 afterwards.
\<close>

theorem extra_turn_rule:
  "(length board = 14 \<and>
    (player = 1 \<and> 0 \<le> pit \<and> pit \<le> 5 \<or> player = 2 \<and> 7 \<le> pit \<and> pit \<le> 12) \<and>
    0 < board ! nat pit \<longrightarrow>
      (\<exists>sown index final extra.
         sow player (board[nat pit := 0]) pit (board ! nat pit) = Some (Inr (sown, index)) \<and>
         make_move board pit player = Some (Inr (True, final, extra)) \<and>
         (extra \<longleftrightarrow> index = (if player = 1 then 6 else 13)))) \<and>
   (\<exists>final. make_move init_board 2 1 = Some (Inr (True, final, True)) \<and> final ! 6 = 1)"
proof (intro conjI impI)
  assume a: "length board = 14 \<and>
    (player = 1 \<and> 0 \<le> pit \<and> pit \<le> 5 \<or> player = 2 \<and> 7 \<le> pit \<and> pit \<le> 12) \<and>
    0 < board ! nat pit"
  then have len: "length board = 14"
    and own: "player = 1 \<and> 0 \<le> pit \<and> pit \<le> 5 \<or> player = 2 \<and> 7 \<le> pit \<and> pit \<le> 12"
    and stones: "0 < board ! nat pit" by simp_all
  show "\<exists>sown index final extra.
         sow player (board[nat pit := 0]) pit (board ! nat pit) = Some (Inr (sown, index)) \<and>
         make_move board pit player = Some (Inr (True, final, extra)) \<and>
         (extra \<longleftrightarrow> index = (if player = 1 then 6 else 13))"
  proof (rule make_move_played [OF len legal_own [OF own stones]])
    fix b2 b3 :: "int list" and i :: int
    assume s: "sow player (board[nat pit := 0]) pit (board ! nat pit) = Some (Inr (b2, i))"
      and m: "make_move board pit player =
         Some (Inr (True, b3, player = 1 \<and> i = 6 \<or> player = 2 \<and> i = 13))"
    from own have "(player = 1 \<and> i = 6 \<or> player = 2 \<and> i = 13) \<longleftrightarrow>
        i = (if player = 1 then 6 else 13)" by auto
    with s m show ?thesis by blast
  qed
next
  show "\<exists>final. make_move init_board 2 1 = Some (Inr (True, final, True)) \<and> final ! 6 = 1"
    by (simp add: first_move)
qed

theorem extra_turn_rule_witness:
  "(\<exists>sown index final extra.
      sow 2 (init_board[nat 9 := 0]) 9 (init_board ! nat 9) = Some (Inr (sown, index)) \<and>
      make_move init_board 9 2 = Some (Inr (True, final, extra)) \<and>
      (extra \<longleftrightarrow> index = (if (2::int) = 1 then 6 else 13))) \<and>
   (\<exists>final. make_move init_board 2 1 = Some (Inr (True, final, True)) \<and> final ! 6 = 1)"
proof -
  have h: "length init_board = 14 \<and>
    ((2::int) = 1 \<and> (0::int) \<le> 9 \<and> (9::int) \<le> 5 \<or> (2::int) = 2 \<and> (7::int) \<le> 9 \<and> (9::int) \<le> 12) \<and>
    0 < init_board ! nat 9"
    by (simp add: init_board_list)
  from extra_turn_rule [of init_board 2 9] h show ?thesis by blast
qed

section \<open>Player values other than 1 and 2\<close>

text \<open>
  C10 as stated fails: a player value of 3 is validated like Player 2, but from the
  initial board pit 9 it gets no extra turn for landing on 13 where Player 2 does, and
  with 8 stones in pit 12 it drops a stone into store 6, which Player 2 skips.
\<close>

theorem other_player_values_counterexample:
  "make_move init_board 9 3 =
     Some (Inr (True, [4, 4, 4, 4, 4, 4, 0, 4, 4, 0, 5, 5, 5, 1], False)) \<and>
   make_move init_board 9 2 =
     Some (Inr (True, [4, 4, 4, 4, 4, 4, 0, 4, 4, 0, 5, 5, 5, 1], True)) \<and>
   make_move [0, 0, 0, 0, 0, 0, 20, 4, 4, 4, 4, 4, 8, 0] 12 3 =
     Some (Inr (True, [1, 1, 1, 1, 1, 1, 21, 4, 4, 4, 4, 4, 0, 1], False)) \<and>
   make_move [0, 0, 0, 0, 0, 0, 20, 4, 4, 4, 4, 4, 8, 0] 12 2 =
     Some (Inr (True, [1, 1, 1, 1, 1, 1, 20, 5, 4, 4, 4, 4, 0, 1], False))"
  by code_simp

text \<open>
  C10, amended: a player value other than 1 is validated as Player 2 (pit in 7..12 and
  not empty). Only the value 2 then plays as Player 2. With any other value the stones
  go to the following positions one by one with no position skipped, stores 6 and 13
  included (position k receives \<open>(n + 13 - d) div 14\<close> of the n stones, where
  \<open>d = (k - pit - 1) mod 14\<close>), the last one lands on \<open>(pit + n) mod 14\<close>, no extra
  turn is granted and nothing is captured.
\<close>

theorem other_player_values:
  assumes len: "length board = 14" and p: "player \<noteq> 1"
  shows "(make_move board pit player = Some (Inr (False, board, False))
            \<longleftrightarrow> pit < 7 \<or> 12 < pit \<or> board ! nat pit = 0) \<and>
         (player \<noteq> 2 \<and> 7 \<le> pit \<and> pit \<le> 12 \<and> 0 < board ! nat pit \<longrightarrow>
            (\<exists>sown. sow player (board[nat pit := 0]) pit (board ! nat pit) =
                       Some (Inr (sown, (pit + board ! nat pit) mod 14)) \<and>
                    (\<forall>k<14. sown ! k = board[nat pit := 0] ! k +
                       (board ! nat pit + 13 - (int k - pit - 1) mod 14) div 14) \<and>
                    make_move board pit player = Some (Inr (True, sown, False))))"
proof (intro conjI impI)
  have "make_move board pit player = Some (Inr (False, board, False))
               \<longleftrightarrow> illegal board pit player"
    by (rule make_move_cases [OF len, of pit player]) simp_all
  with p show "make_move board pit player = Some (Inr (False, board, False))
            \<longleftrightarrow> pit < 7 \<or> 12 < pit \<or> board ! nat pit = 0"
    by (simp add: illegal_def)
next
  assume a: "player \<noteq> 2 \<and> 7 \<le> pit \<and> pit \<le> 12 \<and> 0 < board ! nat pit"
  with p have ok: "\<not> illegal board pit player" by (simp add: illegal_def)
  have l0: "length (board[nat pit := 0]) = 14" using len by simp
  from a have q: "player \<noteq> 2" and n: "0 \<le> board ! nat pit" and r: "0 \<le> pit" "pit < 14"
    by simp_all
  from sow_every_position [OF l0 p q n r]
  obtain sown where s: "sow player (board[nat pit := 0]) pit (board ! nat pit) =
                       Some (Inr (sown, (pit + board ! nat pit) mod 14))"
    and c: "\<forall>k<14. sown ! k = board[nat pit := 0] ! k +
                       (board ! nat pit + 13 - (int k - pit - 1) mod 14) div 14"
    by blast
  have "capture player sown ((pit + board ! nat pit) mod 14) = Inr sown"
    by (rule capture_other [OF p q])
  from make_move_legal [OF len ok s this] p q
  have "make_move board pit player = Some (Inr (True, sown, False))" by simp
  with s c show "\<exists>sown. sow player (board[nat pit := 0]) pit (board ! nat pit) =
                       Some (Inr (sown, (pit + board ! nat pit) mod 14)) \<and>
                    (\<forall>k<14. sown ! k = board[nat pit := 0] ! k +
                       (board ! nat pit + 13 - (int k - pit - 1) mod 14) div 14) \<and>
                    make_move board pit player = Some (Inr (True, sown, False))"
    by blast
qed

theorem other_player_values_witness:
  "(make_move init_board 9 3 = Some (Inr (False, init_board, False))
            \<longleftrightarrow> (9::int) < 7 \<or> (12::int) < 9 \<or> init_board ! nat 9 = 0) \<and>
   (\<exists>sown. sow 3 (init_board[nat 9 := 0]) 9 (init_board ! nat 9) =
                       Some (Inr (sown, (9 + init_board ! nat 9) mod 14)) \<and>
                    (\<forall>k<14. sown ! k = init_board[nat 9 := 0] ! k +
                       (init_board ! nat 9 + 13 - (int k - 9 - 1) mod 14) div 14) \<and>
                    make_move init_board 9 3 = Some (Inr (True, sown, False)))"
proof -
  have l: "length init_board = 14" by (simp add: init_board_list)
  have p: "(3::int) \<noteq> 1" by simp
  have h: "(3::int) \<noteq> 2 \<and> (7::int) \<le> 9 \<and> (9::int) \<le> 12 \<and> 0 < init_board ! nat 9"
    by (simp add: init_board_list)
  from other_player_values [OF l p, of 9] h show ?thesis by blast
qed

end
